theory Spec2Isabelle
  imports Main "HOL-Library.Word"
begin

section \<open>Token bucket rate limiter (rate-limiter.go)\<close>

text \<open>
  The embedding follows \<^verbatim>\<open>rate-limiter.go\<close>. Every method of \<^verbatim>\<open>*rateLimiter\<close> that
  touches the bucket runs its whole body between \<^verbatim>\<open>r.mx.Lock()\<close> and the deferred
  \<^verbatim>\<open>r.mx.Unlock()\<close>, so each call is one atomic step on the shared struct: a function
  from the struct before the call to what the call writes to its response writer and the
  struct after it. The mutex field itself carries no data and is left out of the record.
\<close>

subsection \<open>Data\<close>

type_synonym int64 = "64 word"

text \<open>\<^verbatim>\<open>time.Duration\<close> is an \<^verbatim>\<open>int64\<close> count of nanoseconds.\<close>

type_synonym Duration = "64 word"

record rateLimiter =
  RATE_LIMIT :: int64
  REFILL_INTERVAL :: Duration
  tokenBucket :: "int64 list"

record RateLimiterConfig =
  cfg_RATE_LIMIT :: int64
  cfg_REFILL_INTERVAL :: Duration

record BucketStatus =
  BucketLimit :: int64
  CurrentBucketSize :: int64
  Bucket :: "int64 list"

text \<open>
  \<^verbatim>\<open>int64(len(s))\<close>: the length of a slice converted to \<^verbatim>\<open>int64\<close>. A Go slice has
  fewer than \<open>2 ^ 63\<close> elements, where the conversion keeps the value
  (\<open>sint_int64_of_len\<close> below).
\<close>

definition int64_of_len :: "'a list \<Rightarrow> int64" where
  "int64_of_len xs = word_of_nat (length xs)"

subsection \<open>What a handler writes\<close>

text \<open>
  A header value is either a text, or the text that
  \<^verbatim>\<open>fmt.Sprintf("%f second", d.Seconds())\<close> renders for a duration \<open>d\<close>; the rendering
  goes through \<^verbatim>\<open>float64\<close> and is kept symbolic, with the duration as its argument.
\<close>

datatype header_value = Text string | FmtSeconds Duration

datatype json_value = JBool bool | JString string

datatype payload = StatusBody BucketStatus | MapBody "(string \<times> json_value) list"

text \<open>The calls a handler makes on its response writer or Gin context, in order.\<close>

datatype effect =
    SetHeader string header_value
  | WriteHeader nat
  | Encode payload
  | ServeHTTP_next
  | Gin_JSON nat payload
  | Gin_Next
  | Gin_Abort

text \<open>\<^verbatim>\<open>fmt.Sprintf("%d", n)\<close> for a length \<open>n\<close>: its decimal digits.\<close>

definition digit_char :: "nat \<Rightarrow> char" where
  "digit_char k = ''0123456789'' ! (k mod 10)"

fun fmt_d :: "nat \<Rightarrow> string" where
  "fmt_d n = (if n < 10 then [digit_char n] else fmt_d (n div 10) @ [digit_char (n mod 10)])"

declare fmt_d.simps [simp del]

definition StatusTooManyRequests :: nat where
  "StatusTooManyRequests = 429"

definition StatusOK :: nat where
  "StatusOK = 200"

definition too_many_requests :: payload where
  "too_many_requests =
     MapBody [(''success'', JBool False), (''message'', JString ''Too many requests'')]"

subsection \<open>Operations\<close>

text \<open>\<^verbatim>\<open>New\<close> returns the zero value of the struct.\<close>

definition New :: rateLimiter where
  "New = \<lparr>RATE_LIMIT = 0, REFILL_INTERVAL = 0, tokenBucket = []\<rparr>"

definition SetConfig :: "RateLimiterConfig \<Rightarrow> rateLimiter \<Rightarrow> rateLimiter" where
  "SetConfig c r = r\<lparr>RATE_LIMIT := cfg_RATE_LIMIT c, REFILL_INTERVAL := cfg_REFILL_INTERVAL c\<rparr>"

text \<open>
  \<^verbatim>\<open>RefillBucket\<close>; the reading of the clock, \<^verbatim>\<open>time.Now().UnixNano()\<close>, is the
  argument \<open>now\<close>. The comparison is the signed one of \<^verbatim>\<open>int64\<close>.
\<close>

definition RefillBucket :: "int64 \<Rightarrow> rateLimiter \<Rightarrow> rateLimiter" where
  "RefillBucket now r =
     (if sint (int64_of_len (tokenBucket r)) < sint (RATE_LIMIT r)
      then r\<lparr>tokenBucket := tokenBucket r @ [now]\<rparr>
      else r)"

definition GetBucketStatusWithHTTP :: "rateLimiter \<Rightarrow> effect list \<times> rateLimiter" where
  "GetBucketStatusWithHTTP r =
     ([SetHeader ''Content-Type'' (Text ''application/json''),
       Encode (StatusBody
         \<lparr>BucketLimit = RATE_LIMIT r,
          CurrentBucketSize = int64_of_len (tokenBucket r),
          Bucket = []\<rparr>)], r)"

definition GetBucketStatusWithGin :: "rateLimiter \<Rightarrow> effect list \<times> rateLimiter" where
  "GetBucketStatusWithGin r =
     ([SetHeader ''Content-Type'' (Text ''application/json''),
       Gin_JSON StatusOK (StatusBody
         \<lparr>BucketLimit = RATE_LIMIT r,
          CurrentBucketSize = int64_of_len (tokenBucket r),
          Bucket = []\<rparr>)], r)"

text \<open>
  The two middlewares. \<^verbatim>\<open>r.tokenBucket[1:]\<close> on a non-empty slice drops its first
  element. The downstream handler (\<^verbatim>\<open>next.ServeHTTP\<close>, \<^verbatim>\<open>ctx.Next()\<close>) is called while the
  lock is held; it is recorded as an effect and its own work is outside the limiter. A
  downstream handler that called a method of the same limiter would wait for that lock;
  the runs below are of calls that are not nested in one another.
\<close>

definition RateLimitHTTPMiddleware :: "rateLimiter \<Rightarrow> effect list \<times> rateLimiter" where
  "RateLimitHTTPMiddleware r =
     (if length (tokenBucket r) > 0
      then (let r' = r\<lparr>tokenBucket := drop 1 (tokenBucket r)\<rparr>
            in ([SetHeader ''X-RateLimit-Remaining'' (Text (fmt_d (length (tokenBucket r')))),
                 ServeHTTP_next], r'))
      else ([SetHeader ''X-RateLimit-Remaining'' (Text ''0''),
             SetHeader ''Retry-After'' (FmtSeconds (REFILL_INTERVAL r)),
             WriteHeader StatusTooManyRequests,
             Encode too_many_requests], r))"

definition RateLimitGinMiddleware :: "rateLimiter \<Rightarrow> effect list \<times> rateLimiter" where
  "RateLimitGinMiddleware r =
     (if length (tokenBucket r) > 0
      then (let r' = r\<lparr>tokenBucket := drop 1 (tokenBucket r)\<rparr>
            in ([SetHeader ''X-RateLimit-Remaining'' (Text (fmt_d (length (tokenBucket r')))),
                 Gin_Next], r'))
      else ([SetHeader ''X-RateLimit-Remaining'' (Text ''0''),
             SetHeader ''Retry-After'' (FmtSeconds (REFILL_INTERVAL r)),
             Gin_JSON StatusTooManyRequests too_many_requests,
             Gin_Abort], r))"

subsection \<open>Sequences of calls\<close>

text \<open>
  The calls that reach the bucket once it is configured: a tick of the ticker started by
  \<^verbatim>\<open>Run\<close> (which calls \<^verbatim>\<open>RefillBucket\<close>) with the clock reading it sees, a request
  through either middleware, and a status request through either handler. The lock
  serialises them, so a concurrent execution is a list of calls in the order in which they
  take the lock.
\<close>

datatype binding = HTTP | Gin

datatype op = Tick int64 | Gate binding | Status binding

fun step :: "op \<Rightarrow> rateLimiter \<Rightarrow> effect list \<times> rateLimiter" where
  "step (Tick now) r = ([], RefillBucket now r)"
| "step (Gate HTTP) r = RateLimitHTTPMiddleware r"
| "step (Gate Gin) r = RateLimitGinMiddleware r"
| "step (Status HTTP) r = GetBucketStatusWithHTTP r"
| "step (Status Gin) r = GetBucketStatusWithGin r"

text \<open>The log of a run: for each call the struct before it, what it wrote, the struct after.\<close>

fun exec :: "rateLimiter \<Rightarrow> op list \<Rightarrow> (rateLimiter \<times> effect list \<times> rateLimiter) list" where
  "exec r [] = []"
| "exec r (x # xs) = (r, fst (step x r), snd (step x r)) # exec (snd (step x r)) xs"

fun run :: "rateLimiter \<Rightarrow> op list \<Rightarrow> rateLimiter" where
  "run r [] = r"
| "run r (x # xs) = run (snd (step x r)) xs"

text \<open>Ticks alone, one clock reading per tick.\<close>

definition ticks :: "int64 list \<Rightarrow> rateLimiter \<Rightarrow> rateLimiter" where
  "ticks nows r = fold RefillBucket nows r"

text \<open>
  \<^verbatim>\<open>SetConfig\<close> has no result and no branch: every call returns normally. Seen as an
  operation that could report an error, its result is always the updated struct.
\<close>

datatype config_error = ConfigurationError

definition SetConfig_result :: "RateLimiterConfig \<Rightarrow> rateLimiter \<Rightarrow> config_error + rateLimiter" where
  "SetConfig_result c r = Inr (SetConfig c r)"

subsection \<open>Reading a response\<close>

text \<open>
  What the caller of a middleware observes: the request was admitted when the downstream
  handler was called; a header has the value of the last \<^verbatim>\<open>Set\<close> under its name.
\<close>

datatype outcome = Admitted | Rejected

definition outcome_of :: "effect list \<Rightarrow> outcome" where
  "outcome_of es = (if ServeHTTP_next \<in> set es \<or> Gin_Next \<in> set es then Admitted else Rejected)"

fun header_of :: "string \<Rightarrow> effect list \<Rightarrow> header_value option" where
  "header_of name [] = None"
| "header_of name (SetHeader k v # es) =
     (case header_of name es of
        Some v' \<Rightarrow> Some v'
      | None \<Rightarrow> if k = name then Some v else None)"
| "header_of name (e # es) = header_of name es"

definition remaining_of :: "effect list \<Rightarrow> header_value option" where
  "remaining_of es = header_of ''X-RateLimit-Remaining'' es"

definition retry_after_of :: "effect list \<Rightarrow> header_value option" where
  "retry_after_of es = header_of ''Retry-After'' es"

definition status_code_of :: "effect list \<Rightarrow> nat option" where
  "status_code_of es =
     (case [c. WriteHeader c \<leftarrow> es] @ [c. Gin_JSON c p \<leftarrow> es] of
        [] \<Rightarrow> None
      | c # cs \<Rightarrow> Some c)"


text \<open>The status structs a handler encodes into its response.\<close>

definition reported_status :: "effect list \<Rightarrow> BucketStatus list" where
  "reported_status es =
     [st. Encode (StatusBody st) \<leftarrow> es] @ [st. Gin_JSON c (StatusBody st) \<leftarrow> es]"

subsection \<open>The capacity invariant\<close>

definition within_capacity :: "rateLimiter \<Rightarrow> bool" where
  "within_capacity r \<longleftrightarrow>
     0 \<le> int (length (tokenBucket r)) \<and> int (length (tokenBucket r)) \<le> sint (RATE_LIMIT r)"

section \<open>Properties\<close>

subsection \<open>Lengths as 64-bit integers\<close>

lemma sint_int64_of_len: "length xs < 2 ^ 63 \<Longrightarrow> sint (int64_of_len xs) = int (length xs)"
proof -
  assume a: "length xs < 2 ^ 63"
  have "int (length xs) < 2 ^ 63" using a by simp
  then have s: "signed_take_bit (63::nat) (int (length xs)) = int (length xs)"
    by (intro signed_take_bit_int_eq_self) simp_all
  have w: "int64_of_len xs = word_of_int (int (length xs))"
    by (simp add: int64_of_len_def)
  have "sint (word_of_int (int (length xs)) :: int64) = signed_take_bit (63::nat) (int (length xs))"
    using sint_sbintrunc' [where ?'a = 64, of "int (length xs)"] by simp
  with s w show ?thesis by (simp only:)
qed

lemma sint_int64_bound: "sint (w :: int64) < 2 ^ 63"
  using sint_lt [of w] by simp

lemma within_capacity_len: "within_capacity r \<Longrightarrow> length (tokenBucket r) < 2 ^ 63"
proof -
  assume "within_capacity r"
  then have "int (length (tokenBucket r)) < 2 ^ 63"
    using sint_int64_bound [of "RATE_LIMIT r"] by (simp add: within_capacity_def)
  then show ?thesis by simp
qed

subsection \<open>Refill\<close>

lemma RefillBucket_below:
  "length (tokenBucket r) < 2 ^ 63 \<Longrightarrow> int (length (tokenBucket r)) < sint (RATE_LIMIT r) \<Longrightarrow>
   RefillBucket now r = r\<lparr>tokenBucket := tokenBucket r @ [now]\<rparr>"
  by (simp add: RefillBucket_def sint_int64_of_len)

lemma RefillBucket_full:
  "length (tokenBucket r) < 2 ^ 63 \<Longrightarrow> sint (RATE_LIMIT r) \<le> int (length (tokenBucket r)) \<Longrightarrow>
   RefillBucket now r = r"
  by (simp add: RefillBucket_def sint_int64_of_len)

lemma ticks_full:
  "length (tokenBucket r) < 2 ^ 63 \<Longrightarrow> sint (RATE_LIMIT r) \<le> int (length (tokenBucket r)) \<Longrightarrow>
   ticks nows r = r"
  by (induction nows) (simp_all add: ticks_def RefillBucket_full)

lemma RefillBucket_RATE_LIMIT [simp]: "RATE_LIMIT (RefillBucket now r) = RATE_LIMIT r"
  by (simp add: RefillBucket_def)

lemma RefillBucket_REFILL_INTERVAL [simp]:
  "REFILL_INTERVAL (RefillBucket now r) = REFILL_INTERVAL r"
  by (simp add: RefillBucket_def)

lemma ticks_RATE_LIMIT [simp]: "RATE_LIMIT (ticks nows r) = RATE_LIMIT r"
  by (induction nows arbitrary: r) (simp_all add: ticks_def)

lemma RefillBucket_within: "within_capacity r \<Longrightarrow> within_capacity (RefillBucket now r)"
proof -
  assume w: "within_capacity r"
  show ?thesis
  proof (cases "int (length (tokenBucket r)) < sint (RATE_LIMIT r)")
    case True
    then show ?thesis
      using RefillBucket_below [OF within_capacity_len [OF w] True, of now]
      by (simp add: within_capacity_def)
  next
    case False
    then show ?thesis
      using RefillBucket_full [OF within_capacity_len [OF w], of now] w by simp
  qed
qed

lemma ticks_within: "within_capacity r \<Longrightarrow> within_capacity (ticks nows r)"
  by (induction nows arbitrary: r) (simp_all add: ticks_def RefillBucket_within)

text \<open>Ticks fill the bucket with the first clock readings, as many as there is room for.\<close>

lemma ticks_tokens:
  "within_capacity r \<Longrightarrow>
   ticks nows r =
     r\<lparr>tokenBucket := tokenBucket r @ take (nat (sint (RATE_LIMIT r)) - length (tokenBucket r)) nows\<rparr>"
proof (induction nows arbitrary: r)
  case Nil
  then show ?case by (simp add: ticks_def)
next
  case (Cons now nows)
  note w = Cons.prems
  have step: "ticks (now # nows) r = ticks nows (RefillBucket now r)"
    by (simp add: ticks_def)
  show ?case
  proof (cases "int (length (tokenBucket r)) < sint (RATE_LIMIT r)")
    case True
    have r': "RefillBucket now r = r\<lparr>tokenBucket := tokenBucket r @ [now]\<rparr>"
      by (rule RefillBucket_below [OF within_capacity_len [OF w] True])
    have "nat (sint (RATE_LIMIT r)) - length (tokenBucket r) =
          Suc (nat (sint (RATE_LIMIT r)) - Suc (length (tokenBucket r)))"
      using True by linarith
    then show ?thesis
      using Cons.IH [OF RefillBucket_within [OF w, of now]] by (simp add: step r')
  next
    case False
    then have full: "sint (RATE_LIMIT r) \<le> int (length (tokenBucket r))" by simp
    have "nat (sint (RATE_LIMIT r)) - length (tokenBucket r) = 0"
      using full by linarith
    then show ?thesis
      using ticks_full [OF within_capacity_len [OF w] full, of "now # nows"] by simp
  qed
qed

text \<open>
  C3 (refill step). On a bucket whose slice has a length Go can represent, one call of
  \<^verbatim>\<open>RefillBucket\<close> appends exactly one token (the clock reading) when the count is
  strictly below \<^verbatim>\<open>RATE_LIMIT\<close>, and changes nothing when the count is at or above it;
  any number of further ticks on such a full bucket leaves the struct as it is, and ticks
  never take a count that is within the capacity beyond it. The operation is a total
  function: it has no error result.
\<close>

theorem refill_step:
  assumes "length (tokenBucket r) < 2 ^ 63"
  shows "(int (length (tokenBucket r)) < sint (RATE_LIMIT r) \<longrightarrow>
            RefillBucket now r = r\<lparr>tokenBucket := tokenBucket r @ [now]\<rparr> \<and>
            length (tokenBucket (RefillBucket now r)) = length (tokenBucket r) + 1) \<and>
         (sint (RATE_LIMIT r) \<le> int (length (tokenBucket r)) \<longrightarrow>
            RefillBucket now r = r \<and> ticks nows r = r) \<and>
         (int (length (tokenBucket r)) \<le> sint (RATE_LIMIT r) \<longrightarrow>
            int (length (tokenBucket (ticks nows r))) \<le> sint (RATE_LIMIT r))"
proof (intro conjI impI)
  assume b: "int (length (tokenBucket r)) < sint (RATE_LIMIT r)"
  show e: "RefillBucket now r = r\<lparr>tokenBucket := tokenBucket r @ [now]\<rparr>"
    by (rule RefillBucket_below [OF assms b])
  show "length (tokenBucket (RefillBucket now r)) = length (tokenBucket r) + 1"
    by (simp add: e)
next
  assume f: "sint (RATE_LIMIT r) \<le> int (length (tokenBucket r))"
  show "RefillBucket now r = r" by (rule RefillBucket_full [OF assms f])
  show "ticks nows r = r" by (rule ticks_full [OF assms f])
next
  assume "int (length (tokenBucket r)) \<le> sint (RATE_LIMIT r)"
  then have "within_capacity r" by (simp add: within_capacity_def)
  from ticks_within [OF this, of nows]
  show "int (length (tokenBucket (ticks nows r))) \<le> sint (RATE_LIMIT r)"
    by (simp add: within_capacity_def)
qed

theorem refill_step_witness:
  "length (tokenBucket \<lparr>RATE_LIMIT = 2, REFILL_INTERVAL = 1000, tokenBucket = [5]\<rparr>) < 2 ^ 63 \<and>
   int (length (tokenBucket \<lparr>RATE_LIMIT = 2, REFILL_INTERVAL = 1000, tokenBucket = [5]\<rparr>))
     < sint (2 :: int64) \<and>
   RefillBucket 7 \<lparr>RATE_LIMIT = 2, REFILL_INTERVAL = 1000, tokenBucket = [5]\<rparr> =
     \<lparr>RATE_LIMIT = 2, REFILL_INTERVAL = 1000, tokenBucket = [5, 7]\<rparr> \<and>
   sint (2 :: int64)
     \<le> int (length (tokenBucket \<lparr>RATE_LIMIT = 2, REFILL_INTERVAL = 1000, tokenBucket = [5, 7]\<rparr>)) \<and>
   RefillBucket 9 \<lparr>RATE_LIMIT = 2, REFILL_INTERVAL = 1000, tokenBucket = [5, 7]\<rparr> =
     \<lparr>RATE_LIMIT = 2, REFILL_INTERVAL = 1000, tokenBucket = [5, 7]\<rparr> \<and>
   ticks [9, 10, 11] \<lparr>RATE_LIMIT = 2, REFILL_INTERVAL = 1000, tokenBucket = [5, 7]\<rparr> =
     \<lparr>RATE_LIMIT = 2, REFILL_INTERVAL = 1000, tokenBucket = [5, 7]\<rparr> \<and>
   int (length (tokenBucket
          (ticks [9, 10, 11] \<lparr>RATE_LIMIT = 2, REFILL_INTERVAL = 1000, tokenBucket = [5]\<rparr>)))
     \<le> sint (2 :: int64)"
  using refill_step [of "\<lparr>RATE_LIMIT = 2, REFILL_INTERVAL = 1000, tokenBucket = [5]\<rparr>" 7 "[9, 10, 11]"]
        refill_step [of "\<lparr>RATE_LIMIT = 2, REFILL_INTERVAL = 1000, tokenBucket = [5, 7]\<rparr>" 9 "[9, 10, 11]"]
  by simp

subsection \<open>Single calls and runs\<close>

lemma gate_state: "snd (step (Gate b) r) = r\<lparr>tokenBucket := drop 1 (tokenBucket r)\<rparr>"
  by (cases b) (simp_all add: RateLimitHTTPMiddleware_def RateLimitGinMiddleware_def Let_def)

lemma gate_outcome:
  "outcome_of (fst (step (Gate b) r)) = (if tokenBucket r = [] then Rejected else Admitted)"
  by (cases b)
     (simp_all add: RateLimitHTTPMiddleware_def RateLimitGinMiddleware_def Let_def outcome_of_def)

lemma status_state: "snd (step (Status b) r) = r"
  by (cases b) (simp_all add: GetBucketStatusWithHTTP_def GetBucketStatusWithGin_def)

lemma step_within: "within_capacity r \<Longrightarrow> within_capacity (snd (step x r))"
proof (cases x)
  case (Tick now)
  assume "within_capacity r"
  then show ?thesis using Tick by (simp add: RefillBucket_within)
next
  case (Gate b)
  assume "within_capacity r"
  then show ?thesis using Gate by (simp add: gate_state within_capacity_def)
next
  case (Status b)
  assume "within_capacity r"
  then show ?thesis using Status by (simp add: status_state)
qed

lemma step_RATE_LIMIT: "RATE_LIMIT (snd (step x r)) = RATE_LIMIT r"
  by (cases x) (simp_all add: gate_state status_state)

lemma step_REFILL_INTERVAL: "REFILL_INTERVAL (snd (step x r)) = REFILL_INTERVAL r"
  by (cases x) (simp_all add: gate_state status_state)

lemma exec_within:
  "within_capacity r \<Longrightarrow> (pre, es, post) \<in> set (exec r ops) \<Longrightarrow>
   within_capacity pre \<and> within_capacity post"
proof (induction ops arbitrary: r)
  case Nil
  then show ?case by simp
next
  case (Cons x xs)
  from Cons.prems(2)
  consider "pre = r" "post = snd (step x r)"
    | "(pre, es, post) \<in> set (exec (snd (step x r)) xs)"
    by (auto simp: prod_eq_iff)
  then show ?case
  proof cases
    case 1
    then show ?thesis using Cons.prems(1) by (simp add: step_within)
  next
    case 2
    then show ?thesis using Cons.IH [OF step_within [OF Cons.prems(1)]] by blast
  qed
qed

lemma run_within: "within_capacity r \<Longrightarrow> within_capacity (run r ops)"
  by (induction ops arbitrary: r) (simp_all add: step_within)

lemma exec_config:
  "(pre, es, post) \<in> set (exec r ops) \<Longrightarrow>
   RATE_LIMIT pre = RATE_LIMIT r \<and> REFILL_INTERVAL pre = REFILL_INTERVAL r \<and>
   RATE_LIMIT post = RATE_LIMIT r \<and> REFILL_INTERVAL post = REFILL_INTERVAL r"
proof (induction ops arbitrary: r)
  case Nil
  then show ?case by simp
next
  case (Cons x xs)
  from Cons.prems
  consider "pre = r" "post = snd (step x r)"
    | "(pre, es, post) \<in> set (exec (snd (step x r)) xs)"
    by (auto simp: prod_eq_iff)
  then show ?case
  proof cases
    case 1
    then show ?thesis by (simp add: step_RATE_LIMIT step_REFILL_INTERVAL)
  next
    case 2
    from Cons.IH [OF 2] show ?thesis by (simp add: step_RATE_LIMIT step_REFILL_INTERVAL)
  qed
qed

lemma run_config:
  "RATE_LIMIT (run r ops) = RATE_LIMIT r \<and> REFILL_INTERVAL (run r ops) = REFILL_INTERVAL r"
  by (induction ops arbitrary: r) (simp_all add: step_RATE_LIMIT step_REFILL_INTERVAL)

text \<open>
  C1 (capacity invariant). Configure a fresh limiter with a capacity greater than 0. Then in
  every run of ticks, gate calls and status calls, in any order, the number of tokens is
  between 0 and the configured capacity before and after every call: at the start, in the
  struct each call finds, in the struct it leaves, and at the end of the run.
\<close>

theorem capacity_invariant:
  assumes "0 < sint (cfg_RATE_LIMIT c)"
  shows "within_capacity (SetConfig c New) \<and>
         within_capacity (run (SetConfig c New) ops) \<and>
         (\<forall>(pre, es, post) \<in> set (exec (SetConfig c New) ops).
            0 \<le> int (length (tokenBucket pre)) \<and>
            int (length (tokenBucket pre)) \<le> sint (cfg_RATE_LIMIT c) \<and>
            0 \<le> int (length (tokenBucket post)) \<and>
            int (length (tokenBucket post)) \<le> sint (cfg_RATE_LIMIT c))"
proof -
  have init: "within_capacity (SetConfig c New)"
    using assms by (simp add: within_capacity_def SetConfig_def New_def)
  have cap: "RATE_LIMIT (SetConfig c New) = cfg_RATE_LIMIT c"
    by (simp add: SetConfig_def)
  have "\<forall>(pre, es, post) \<in> set (exec (SetConfig c New) ops).
            0 \<le> int (length (tokenBucket pre)) \<and>
            int (length (tokenBucket pre)) \<le> sint (cfg_RATE_LIMIT c) \<and>
            0 \<le> int (length (tokenBucket post)) \<and>
            int (length (tokenBucket post)) \<le> sint (cfg_RATE_LIMIT c)"
  proof (clarify, intro conjI)
    fix pre es post
    assume m: "(pre, es, post) \<in> set (exec (SetConfig c New) ops)"
    from exec_within [OF init m] exec_config [OF m] cap
    show "int (length (tokenBucket pre)) \<le> sint (cfg_RATE_LIMIT c)"
      and "int (length (tokenBucket post)) \<le> sint (cfg_RATE_LIMIT c)"
      by (simp_all add: within_capacity_def)
  qed simp_all
  with init run_within [OF init] show ?thesis by blast
qed

theorem capacity_invariant_witness:
  "0 < sint (cfg_RATE_LIMIT \<lparr>cfg_RATE_LIMIT = 2, cfg_REFILL_INTERVAL = 1000\<rparr>) \<and>
   exec (SetConfig \<lparr>cfg_RATE_LIMIT = 2, cfg_REFILL_INTERVAL = 1000\<rparr> New)
        [Tick 5, Tick 6, Tick 7, Gate HTTP, Status Gin] \<noteq> [] \<and>
   within_capacity (run (SetConfig \<lparr>cfg_RATE_LIMIT = 2, cfg_REFILL_INTERVAL = 1000\<rparr> New)
        [Tick 5, Tick 6, Tick 7, Gate HTTP, Status Gin]) \<and>
   tokenBucket (run (SetConfig \<lparr>cfg_RATE_LIMIT = 2, cfg_REFILL_INTERVAL = 1000\<rparr> New)
        [Tick 5, Tick 6, Tick 7, Gate HTTP, Status Gin]) = [6]"
  using capacity_invariant [of "\<lparr>cfg_RATE_LIMIT = 2, cfg_REFILL_INTERVAL = 1000\<rparr>"
                               "[Tick 5, Tick 6, Tick 7, Gate HTTP, Status Gin]"]
  by (simp add: SetConfig_def New_def RefillBucket_def int64_of_len_def
        RateLimitHTTPMiddleware_def GetBucketStatusWithGin_def Let_def)

subsection \<open>The gate\<close>

lemma digit_char_inj: "a < 10 \<Longrightarrow> b < 10 \<Longrightarrow> digit_char a = digit_char b \<Longrightarrow> a = b"
proof -
  assume a: "a < 10" and b: "b < 10" and e: "digit_char a = digit_char b"
  have d: "distinct ''0123456789''" by simp
  have "''0123456789'' ! a = ''0123456789'' ! b"
    using e a b by (simp add: digit_char_def)
  with d a b show "a = b" by (simp add: nth_eq_iff_index_eq)
qed

lemma fmt_d_nonempty: "fmt_d n \<noteq> []"
  by (subst fmt_d.simps) simp

lemma fmt_d_inj: "fmt_d m = fmt_d n \<Longrightarrow> m = n"
proof (induction m arbitrary: n rule: fmt_d.induct)
  case (1 m)
  show ?case
  proof (cases "m < 10")
    case True
    then have m: "fmt_d m = [digit_char m]" by (subst fmt_d.simps) simp
    show ?thesis
    proof (cases "n < 10")
      case nT: True
      then have "fmt_d n = [digit_char n]" by (subst fmt_d.simps) simp
      with m "1.prems" have "digit_char m = digit_char n" by simp
      with True nT show ?thesis by (rule digit_char_inj)
    next
      case False
      then have "fmt_d n = fmt_d (n div 10) @ [digit_char (n mod 10)]"
        by (subst fmt_d.simps) simp
      with m "1.prems" fmt_d_nonempty [of "n div 10"] show ?thesis by simp
    qed
  next
    case False
    then have m: "fmt_d m = fmt_d (m div 10) @ [digit_char (m mod 10)]"
      by (subst fmt_d.simps) simp
    show ?thesis
    proof (cases "n < 10")
      case True
      then have "fmt_d n = [digit_char n]" by (subst fmt_d.simps) simp
      with m "1.prems" fmt_d_nonempty [of "m div 10"] show ?thesis by simp
    next
      case nF: False
      then have "fmt_d n = fmt_d (n div 10) @ [digit_char (n mod 10)]"
        by (subst fmt_d.simps) simp
      with m "1.prems" have q: "fmt_d (m div 10) = fmt_d (n div 10)"
        and d: "digit_char (m mod 10) = digit_char (n mod 10)" by simp_all
      from "1.IH" [OF False q] have "m div 10 = n div 10" .
      moreover have "m mod 10 = n mod 10"
        by (rule digit_char_inj [OF _ _ d]) simp_all
      ultimately show ?thesis by (metis div_mult_mod_eq)
    qed
  qed
qed

lemma fmt_d_0: "fmt_d 0 = ''0''"
  by (simp add: fmt_d.simps digit_char_def)

text \<open>
  C8 (configuration frame). No tick, gate call or status call changes \<^verbatim>\<open>RATE_LIMIT\<close> or
  \<^verbatim>\<open>REFILL_INTERVAL\<close>: after one call, and after any run of calls, the struct is the
  one before with at most its token collection replaced.
\<close>
theorem configuration_frame:
  "RATE_LIMIT (snd (step x r)) = RATE_LIMIT r \<and>
   REFILL_INTERVAL (snd (step x r)) = REFILL_INTERVAL r \<and>
   snd (step x r) = r\<lparr>tokenBucket := tokenBucket (snd (step x r))\<rparr> \<and>
   RATE_LIMIT (run r ops) = RATE_LIMIT r \<and>
   REFILL_INTERVAL (run r ops) = REFILL_INTERVAL r \<and>
   run r ops = r\<lparr>tokenBucket := tokenBucket (run r ops)\<rparr>"
proof -
  have a: "RATE_LIMIT (snd (step x r)) = RATE_LIMIT r"
    and b: "REFILL_INTERVAL (snd (step x r)) = REFILL_INTERVAL r"
    by (rule step_RATE_LIMIT, rule step_REFILL_INTERVAL)
  have c: "snd (step x r) = r\<lparr>tokenBucket := tokenBucket (snd (step x r))\<rparr>"
    using a b by (intro rateLimiter.equality) simp_all
  have d: "RATE_LIMIT (run r ops) = RATE_LIMIT r"
    and e: "REFILL_INTERVAL (run r ops) = REFILL_INTERVAL r"
    using run_config [of r ops] by simp_all
  have f: "run r ops = r\<lparr>tokenBucket := tokenBucket (run r ops)\<rparr>"
    using d e by (intro rateLimiter.equality) simp_all
  from a b c d e f show ?thesis by (intro conjI)
qed

text \<open>
  C10 (rejection atomicity). On a bucket with no token, a request through either middleware
  is rejected and leaves the whole struct, the token collection and both configuration
  fields, exactly as it was.
\<close>
theorem rejection_atomicity:
  assumes "length (tokenBucket r) = 0"
  shows "snd (RateLimitHTTPMiddleware r) = r \<and>
         snd (RateLimitGinMiddleware r) = r \<and>
         outcome_of (fst (RateLimitHTTPMiddleware r)) = Rejected \<and>
         outcome_of (fst (RateLimitGinMiddleware r)) = Rejected"
  using assms
  by (simp add: RateLimitHTTPMiddleware_def RateLimitGinMiddleware_def outcome_of_def)

theorem rejection_atomicity_witness:
  "length (tokenBucket \<lparr>RATE_LIMIT = 3, REFILL_INTERVAL = 1000, tokenBucket = []\<rparr>) = 0 \<and>
   snd (RateLimitHTTPMiddleware \<lparr>RATE_LIMIT = 3, REFILL_INTERVAL = 1000, tokenBucket = []\<rparr>) =
     \<lparr>RATE_LIMIT = 3, REFILL_INTERVAL = 1000, tokenBucket = []\<rparr> \<and>
   snd (RateLimitGinMiddleware \<lparr>RATE_LIMIT = 3, REFILL_INTERVAL = 1000, tokenBucket = []\<rparr>) =
     \<lparr>RATE_LIMIT = 3, REFILL_INTERVAL = 1000, tokenBucket = []\<rparr> \<and>
   outcome_of (fst (RateLimitHTTPMiddleware
     \<lparr>RATE_LIMIT = 3, REFILL_INTERVAL = 1000, tokenBucket = []\<rparr>)) = Rejected \<and>
   outcome_of (fst (RateLimitGinMiddleware
     \<lparr>RATE_LIMIT = 3, REFILL_INTERVAL = 1000, tokenBucket = []\<rparr>)) = Rejected"
  using rejection_atomicity [of "\<lparr>RATE_LIMIT = 3, REFILL_INTERVAL = 1000, tokenBucket = []\<rparr>"]
  by simp

text \<open>
  C9 (variant equivalence). On every struct the plain-HTTP middleware and the Gin middleware
  leave the same struct behind (the head token removed if and only if the bucket is not
  empty), take the same decision, and report the same remaining-count header, the same
  retry-hint header and the same status code; they differ only in the calls that hand the
  request on or write the refusal.
\<close>
theorem variant_equivalence:
  "snd (RateLimitHTTPMiddleware r) = snd (RateLimitGinMiddleware r) \<and>
   snd (RateLimitGinMiddleware r) =
     (if tokenBucket r = [] then r else r\<lparr>tokenBucket := tl (tokenBucket r)\<rparr>) \<and>
   outcome_of (fst (RateLimitHTTPMiddleware r)) = outcome_of (fst (RateLimitGinMiddleware r)) \<and>
   outcome_of (fst (RateLimitGinMiddleware r)) =
     (if tokenBucket r = [] then Rejected else Admitted) \<and>
   remaining_of (fst (RateLimitHTTPMiddleware r)) = remaining_of (fst (RateLimitGinMiddleware r)) \<and>
   retry_after_of (fst (RateLimitHTTPMiddleware r)) = retry_after_of (fst (RateLimitGinMiddleware r)) \<and>
   status_code_of (fst (RateLimitHTTPMiddleware r)) = status_code_of (fst (RateLimitGinMiddleware r))"
  by (simp add: RateLimitHTTPMiddleware_def RateLimitGinMiddleware_def Let_def outcome_of_def
        remaining_of_def retry_after_of_def status_code_of_def drop_Suc)

text \<open>
  C2 (gate contract). One request through the middleware, a single step under the lock, is
  admitted if and only if the bucket holds a token. When admitted, exactly one token, the
  head of the sequence, is removed, nothing else changes, and the remaining-count header is
  the decimal text of the count right after the removal (a text that determines the count,
  \<open>fmt_d_inj\<close>); no retry hint and no status code are written. Otherwise the request
  is rejected, the struct is unchanged, the remaining-count header is the text of 0, the
  status code is 429, and the retry hint is rendered from the configured
  \<^verbatim>\<open>REFILL_INTERVAL\<close> itself, not from a computed time to the next token.
\<close>
theorem gate_contract:
  "(outcome_of (fst (RateLimitHTTPMiddleware r)) = Admitted \<longleftrightarrow> length (tokenBucket r) > 0) \<and>
   (length (tokenBucket r) > 0 \<longrightarrow>
      outcome_of (fst (RateLimitHTTPMiddleware r)) = Admitted \<and>
      tokenBucket r = hd (tokenBucket r) # tokenBucket (snd (RateLimitHTTPMiddleware r)) \<and>
      length (tokenBucket (snd (RateLimitHTTPMiddleware r))) + 1 = length (tokenBucket r) \<and>
      snd (RateLimitHTTPMiddleware r) = r\<lparr>tokenBucket := tl (tokenBucket r)\<rparr> \<and>
      remaining_of (fst (RateLimitHTTPMiddleware r)) =
        Some (Text (fmt_d (length (tokenBucket (snd (RateLimitHTTPMiddleware r)))))) \<and>
      retry_after_of (fst (RateLimitHTTPMiddleware r)) = None \<and>
      status_code_of (fst (RateLimitHTTPMiddleware r)) = None) \<and>
   (\<not> length (tokenBucket r) > 0 \<longrightarrow>
      outcome_of (fst (RateLimitHTTPMiddleware r)) = Rejected \<and>
      snd (RateLimitHTTPMiddleware r) = r \<and>
      remaining_of (fst (RateLimitHTTPMiddleware r)) = Some (Text (fmt_d 0)) \<and>
      retry_after_of (fst (RateLimitHTTPMiddleware r)) = Some (FmtSeconds (REFILL_INTERVAL r)) \<and>
      status_code_of (fst (RateLimitHTTPMiddleware r)) = Some StatusTooManyRequests)"
  by (cases "tokenBucket r")
     (simp_all add: RateLimitHTTPMiddleware_def Let_def outcome_of_def
        remaining_of_def retry_after_of_def status_code_of_def fmt_d_0)

theorem gate_contract_witness:
  "length (tokenBucket \<lparr>RATE_LIMIT = 3, REFILL_INTERVAL = 1000, tokenBucket = [5, 6, 7]\<rparr>) > 0 \<and>
   outcome_of (fst (RateLimitHTTPMiddleware
     \<lparr>RATE_LIMIT = 3, REFILL_INTERVAL = 1000, tokenBucket = [5, 6, 7]\<rparr>)) = Admitted \<and>
   snd (RateLimitHTTPMiddleware \<lparr>RATE_LIMIT = 3, REFILL_INTERVAL = 1000, tokenBucket = [5, 6, 7]\<rparr>) =
     \<lparr>RATE_LIMIT = 3, REFILL_INTERVAL = 1000, tokenBucket = [6, 7]\<rparr> \<and>
   remaining_of (fst (RateLimitHTTPMiddleware
     \<lparr>RATE_LIMIT = 3, REFILL_INTERVAL = 1000, tokenBucket = [5, 6, 7]\<rparr>)) = Some (Text ''2'') \<and>
   \<not> length (tokenBucket \<lparr>RATE_LIMIT = 3, REFILL_INTERVAL = 1000, tokenBucket = []\<rparr>) > 0 \<and>
   outcome_of (fst (RateLimitHTTPMiddleware
     \<lparr>RATE_LIMIT = 3, REFILL_INTERVAL = 1000, tokenBucket = []\<rparr>)) = Rejected \<and>
   remaining_of (fst (RateLimitHTTPMiddleware
     \<lparr>RATE_LIMIT = 3, REFILL_INTERVAL = 1000, tokenBucket = []\<rparr>)) = Some (Text ''0'') \<and>
   retry_after_of (fst (RateLimitHTTPMiddleware
     \<lparr>RATE_LIMIT = 3, REFILL_INTERVAL = 1000, tokenBucket = []\<rparr>)) = Some (FmtSeconds 1000)"
  using gate_contract [of "\<lparr>RATE_LIMIT = 3, REFILL_INTERVAL = 1000, tokenBucket = [5, 6, 7]\<rparr>"]
        gate_contract [of "\<lparr>RATE_LIMIT = 3, REFILL_INTERVAL = 1000, tokenBucket = []\<rparr>"]
  by (simp add: fmt_d.simps digit_char_def)

subsection \<open>Replenishment and consumption\<close>

text \<open>
  C4 (linear replenishment). Take an empty bucket with a capacity \<open>C > 0\<close> and \<open>C\<close>
  ticks with no consumption in between. After the first \<open>k\<close> of them the count is
  \<open>k\<close>; after all \<open>C\<close> the count is exactly \<open>C\<close> (the tokens are the clock readings of
  the ticks, in order); one more tick changes nothing, so the count stays \<open>C\<close>.
\<close>
theorem linear_replenishment:
  assumes "tokenBucket r = []"
    and "0 < sint (RATE_LIMIT r)"
    and "int (length nows) = sint (RATE_LIMIT r)"
  shows "int (length (tokenBucket (ticks nows r))) = sint (RATE_LIMIT r) \<and>
         tokenBucket (ticks nows r) = nows \<and>
         (\<forall>k \<le> length nows. length (tokenBucket (ticks (take k nows) r)) = k) \<and>
         ticks (nows @ [now]) r = ticks nows r \<and>
         int (length (tokenBucket (ticks (nows @ [now]) r))) = sint (RATE_LIMIT r)"
proof -
  have w: "within_capacity r"
    using assms(1,2) by (simp add: within_capacity_def)
  have n: "nat (sint (RATE_LIMIT r)) = length nows"
    using assms(3) by linarith
  have t: "\<And>ms. tokenBucket (ticks ms r) = take (length nows) ms"
    using ticks_tokens [OF w] assms(1) n by simp
  have a: "tokenBucket (ticks nows r) = nows"
    by (simp add: t)
  have b: "\<forall>k \<le> length nows. length (tokenBucket (ticks (take k nows) r)) = k"
    by (simp add: t)
  have c: "ticks (nows @ [now]) r = ticks nows r"
    using ticks_tokens [OF w, of "nows @ [now]"] ticks_tokens [OF w, of nows] assms(1) n
    by simp
  from a b c assms(3) show ?thesis by simp
qed

theorem linear_replenishment_witness:
  "tokenBucket (SetConfig \<lparr>cfg_RATE_LIMIT = 3, cfg_REFILL_INTERVAL = 1000\<rparr> New) = [] \<and>
   0 < sint (RATE_LIMIT (SetConfig \<lparr>cfg_RATE_LIMIT = 3, cfg_REFILL_INTERVAL = 1000\<rparr> New)) \<and>
   int (length [10, 20, 30 :: int64]) =
     sint (RATE_LIMIT (SetConfig \<lparr>cfg_RATE_LIMIT = 3, cfg_REFILL_INTERVAL = 1000\<rparr> New)) \<and>
   tokenBucket (ticks [10, 20, 30] (SetConfig \<lparr>cfg_RATE_LIMIT = 3, cfg_REFILL_INTERVAL = 1000\<rparr> New))
     = [10, 20, 30] \<and>
   length (tokenBucket (ticks [10, 20, 30, 40]
     (SetConfig \<lparr>cfg_RATE_LIMIT = 3, cfg_REFILL_INTERVAL = 1000\<rparr> New))) = 3"
  using linear_replenishment [of "SetConfig \<lparr>cfg_RATE_LIMIT = 3, cfg_REFILL_INTERVAL = 1000\<rparr> New"
          "[10, 20, 30]" 40]
  by (simp add: SetConfig_def New_def)

lemma length_exec [simp]: "length (exec r ops) = length ops"
  by (induction ops arbitrary: r) simp_all

lemma run_gates: "run r (map Gate bs) = r\<lparr>tokenBucket := drop (length bs) (tokenBucket r)\<rparr>"
  by (induction bs arbitrary: r) (simp_all add: gate_state)

lemma nth_exec_gates:
  "i < length bs \<Longrightarrow>
   exec r (map Gate bs) ! i =
     (r\<lparr>tokenBucket := drop i (tokenBucket r)\<rparr>,
      fst (step (Gate (bs ! i)) (r\<lparr>tokenBucket := drop i (tokenBucket r)\<rparr>)),
      r\<lparr>tokenBucket := drop (Suc i) (tokenBucket r)\<rparr>)"
proof (induction bs arbitrary: r i)
  case Nil
  then show ?case by simp
next
  case (Cons b bs)
  show ?case
  proof (cases i)
    case 0
    then show ?thesis by (simp add: gate_state)
  next
    case (Suc j)
    then have "j < length bs" using Cons.prems by simp
    from Cons.IH [OF this, of "snd (step (Gate b) r)"] Suc
    show ?thesis by (simp add: gate_state)
  qed
qed

lemma count_admitted:
  "length (filter (\<lambda>(pre, es, post). outcome_of es = Admitted) (exec r (map Gate bs))) =
   min (length (tokenBucket r)) (length bs)"
proof (induction bs arbitrary: r)
  case Nil
  then show ?case by simp
next
  case (Cons b bs)
  from Cons.IH [of "snd (step (Gate b) r)"]
  show ?case by (cases "tokenBucket r") (simp_all add: gate_state gate_outcome)
qed

lemma count_rejected:
  "length (filter (\<lambda>(pre, es, post). outcome_of es = Rejected) (exec r (map Gate bs))) =
   length bs - min (length (tokenBucket r)) (length bs)"
proof (induction bs arbitrary: r)
  case Nil
  then show ?case by simp
next
  case (Cons b bs)
  from Cons.IH [of "snd (step (Gate b) r)"]
  show ?case by (cases "tokenBucket r") (simp_all add: gate_state gate_outcome)
qed

text \<open>
  C5 (no double-spend). Let \<open>N\<close> requests, through either middleware and in any order of
  taking the lock, reach a bucket of exactly \<open>K < N\<close> tokens with no tick in between. Then
  exactly \<open>K\<close> of them are admitted and exactly \<open>N - K\<close> rejected. The admitted ones are
  the first \<open>K\<close> to take the lock, and the \<open>i\<close>-th of them removes the token at position
  \<open>i\<close> of the original sequence, so no two admissions consume the same token; the
  rejected ones find the bucket empty and leave it unchanged.
\<close>

theorem no_double_spend:
  assumes "length (tokenBucket r) = K"
    and "K < length bs"
  shows "length (filter (\<lambda>(pre, es, post). outcome_of es = Admitted) (exec r (map Gate bs))) = K \<and>
         length (filter (\<lambda>(pre, es, post). outcome_of es = Rejected) (exec r (map Gate bs)))
           = length bs - K \<and>
         (\<forall>i < length bs. case exec r (map Gate bs) ! i of (pre, es, post) \<Rightarrow>
            (outcome_of es = Admitted \<longleftrightarrow> i < K) \<and>
            (outcome_of es = Rejected \<longleftrightarrow> K \<le> i) \<and>
            (i < K \<longrightarrow> tokenBucket pre = tokenBucket r ! i # tokenBucket post \<and>
                        tokenBucket post = drop (Suc i) (tokenBucket r)) \<and>
            (K \<le> i \<longrightarrow> tokenBucket pre = [] \<and> post = pre)) \<and>
         tokenBucket (run r (map Gate bs)) = []"
proof (intro conjI allI impI)
  show "length (filter (\<lambda>(pre, es, post). outcome_of es = Admitted) (exec r (map Gate bs))) = K"
    using assms by (simp add: count_admitted)
  show "length (filter (\<lambda>(pre, es, post). outcome_of es = Rejected) (exec r (map Gate bs)))
           = length bs - K"
    using assms by (simp add: count_rejected)
  show "tokenBucket (run r (map Gate bs)) = []"
    using assms by (simp add: run_gates)
next
  fix i
  assume i: "i < length bs"
  show "case exec r (map Gate bs) ! i of (pre, es, post) \<Rightarrow>
            (outcome_of es = Admitted \<longleftrightarrow> i < K) \<and>
            (outcome_of es = Rejected \<longleftrightarrow> K \<le> i) \<and>
            (i < K \<longrightarrow> tokenBucket pre = tokenBucket r ! i # tokenBucket post \<and>
                        tokenBucket post = drop (Suc i) (tokenBucket r)) \<and>
            (K \<le> i \<longrightarrow> tokenBucket pre = [] \<and> post = pre)"
    using assms(1) by (auto simp: nth_exec_gates [OF i] gate_outcome Cons_nth_drop_Suc)
qed

theorem no_double_spend_witness:
  "length (tokenBucket \<lparr>RATE_LIMIT = 5, REFILL_INTERVAL = 1000, tokenBucket = [7, 8]\<rparr>) = 2 \<and>
   2 < length [HTTP, Gin, HTTP] \<and>
   map (\<lambda>(pre, es, post). (outcome_of es, tokenBucket pre, tokenBucket post))
     (exec \<lparr>RATE_LIMIT = 5, REFILL_INTERVAL = 1000, tokenBucket = [7, 8]\<rparr> (map Gate [HTTP, Gin, HTTP]))
     = [(Admitted, [7, 8], [8]), (Admitted, [8], []), (Rejected, [], [])] \<and>
   length (filter (\<lambda>(pre, es, post). outcome_of es = Admitted)
     (exec \<lparr>RATE_LIMIT = 5, REFILL_INTERVAL = 1000, tokenBucket = [7, 8]\<rparr> (map Gate [HTTP, Gin, HTTP])))
     = 2 \<and>
   length (filter (\<lambda>(pre, es, post). outcome_of es = Rejected)
     (exec \<lparr>RATE_LIMIT = 5, REFILL_INTERVAL = 1000, tokenBucket = [7, 8]\<rparr> (map Gate [HTTP, Gin, HTTP])))
     = 1"
  using no_double_spend [of "\<lparr>RATE_LIMIT = 5, REFILL_INTERVAL = 1000, tokenBucket = [7, 8]\<rparr>" 2
          "[HTTP, Gin, HTTP]"]
  by (simp add: RateLimitHTTPMiddleware_def RateLimitGinMiddleware_def outcome_of_def Let_def)

subsection \<open>Status\<close>

lemma reported_status_step:
  "reported_status (fst (step (Status b) r)) =
     [\<lparr>BucketLimit = RATE_LIMIT r, CurrentBucketSize = int64_of_len (tokenBucket r), Bucket = []\<rparr>]"
  by (cases b)
     (simp_all add: reported_status_def GetBucketStatusWithHTTP_def GetBucketStatusWithGin_def)

lemma exec_statuses:
  "(pre, es, post) \<in> set (exec r (map Status bs)) \<Longrightarrow>
   pre = r \<and> post = r \<and> (\<exists>b. es = fst (step (Status b) r))"
proof (induction bs)
  case Nil
  then show ?case by simp
next
  case (Cons b bs)
  from Cons.prems
  consider "pre = r" "post = snd (step (Status b) r)" "es = fst (step (Status b) r)"
    | "(pre, es, post) \<in> set (exec r (map Status bs))"
    by (auto simp: prod_eq_iff status_state)
  then show ?case
  proof cases
    case 1
    then show ?thesis by (auto simp: status_state)
  next
    case 2
    then show ?thesis by (rule Cons.IH)
  qed
qed

text \<open>
  C7 (status contract). On a bucket whose slice has a length Go can represent, a status
  request through either handler leaves the struct unchanged and encodes one status
  struct, with \<^verbatim>\<open>BucketLimit\<close> the configured capacity, \<^verbatim>\<open>CurrentBucketSize\<close> the
  current number of tokens and \<^verbatim>\<open>Bucket\<close> the empty list, whatever timestamps the
  bucket holds. In a run of status requests alone every request finds and leaves the same
  struct and reports the same status.
\<close>

theorem status_contract:
  assumes "length (tokenBucket r) < 2 ^ 63"
  shows "snd (step (Status b) r) = r \<and>
         map BucketLimit (reported_status (fst (step (Status b) r))) = [RATE_LIMIT r] \<and>
         map (\<lambda>st. sint (CurrentBucketSize st)) (reported_status (fst (step (Status b) r)))
           = [int (length (tokenBucket r))] \<and>
         map Bucket (reported_status (fst (step (Status b) r))) = [[]] \<and>
         (\<forall>(pre, es, post) \<in> set (exec r (map Status bs)).
            pre = r \<and> post = r \<and>
            reported_status es = reported_status (fst (step (Status b) r)))"
proof (intro conjI)
  show "snd (step (Status b) r) = r" by (rule status_state)
  show "map BucketLimit (reported_status (fst (step (Status b) r))) = [RATE_LIMIT r]"
    by (simp add: reported_status_step)
  show "map (\<lambda>st. sint (CurrentBucketSize st)) (reported_status (fst (step (Status b) r)))
           = [int (length (tokenBucket r))]"
    by (simp add: reported_status_step sint_int64_of_len [OF assms])
  show "map Bucket (reported_status (fst (step (Status b) r))) = [[]]"
    by (simp add: reported_status_step)
  show "\<forall>(pre, es, post) \<in> set (exec r (map Status bs)).
            pre = r \<and> post = r \<and>
            reported_status es = reported_status (fst (step (Status b) r))"
  proof clarify
    fix pre es post
    assume "(pre, es, post) \<in> set (exec r (map Status bs))"
    from exec_statuses [OF this]
    show "pre = r \<and> post = r \<and> reported_status es = reported_status (fst (step (Status b) r))"
      by (auto simp: reported_status_step)
  qed
qed

theorem status_contract_witness:
  "length (tokenBucket \<lparr>RATE_LIMIT = 5, REFILL_INTERVAL = 1000, tokenBucket = [7, 8]\<rparr>) < 2 ^ 63 \<and>
   GetBucketStatusWithHTTP \<lparr>RATE_LIMIT = 5, REFILL_INTERVAL = 1000, tokenBucket = [7, 8]\<rparr> =
     ([SetHeader ''Content-Type'' (Text ''application/json''),
       Encode (StatusBody \<lparr>BucketLimit = 5, CurrentBucketSize = 2, Bucket = []\<rparr>)],
      \<lparr>RATE_LIMIT = 5, REFILL_INTERVAL = 1000, tokenBucket = [7, 8]\<rparr>) \<and>
   map (\<lambda>(pre, es, post). (pre, reported_status es, post))
     (exec \<lparr>RATE_LIMIT = 5, REFILL_INTERVAL = 1000, tokenBucket = [7, 8]\<rparr> (map Status [HTTP, Gin])) =
     [(\<lparr>RATE_LIMIT = 5, REFILL_INTERVAL = 1000, tokenBucket = [7, 8]\<rparr>,
       [\<lparr>BucketLimit = 5, CurrentBucketSize = 2, Bucket = []\<rparr>],
       \<lparr>RATE_LIMIT = 5, REFILL_INTERVAL = 1000, tokenBucket = [7, 8]\<rparr>),
      (\<lparr>RATE_LIMIT = 5, REFILL_INTERVAL = 1000, tokenBucket = [7, 8]\<rparr>,
       [\<lparr>BucketLimit = 5, CurrentBucketSize = 2, Bucket = []\<rparr>],
       \<lparr>RATE_LIMIT = 5, REFILL_INTERVAL = 1000, tokenBucket = [7, 8]\<rparr>)]"
  using status_contract [of "\<lparr>RATE_LIMIT = 5, REFILL_INTERVAL = 1000, tokenBucket = [7, 8]\<rparr>"
          HTTP "[HTTP, Gin]"]
  by (simp add: GetBucketStatusWithHTTP_def GetBucketStatusWithGin_def reported_status_def
        int64_of_len_def)

subsection \<open>Configuration\<close>

lemma run_empty:
  "tokenBucket r = [] \<Longrightarrow> sint (RATE_LIMIT r) \<le> 0 \<Longrightarrow> run r ops = r"
proof (induction ops)
  case Nil
  then show ?case by simp
next
  case (Cons x xs)
  have "snd (step x r) = r"
  proof (cases x)
    case (Tick now)
    then show ?thesis using Cons.prems by (simp add: RefillBucket_full)
  next
    case (Gate b)
    then show ?thesis using Cons.prems by (simp add: gate_state)
  next
    case (Status b)
    then show ?thesis by (simp add: status_state)
  qed
  then show ?case using Cons by simp
qed

text \<open>
  C6, as claimed, fails. \<^verbatim>\<open>SetConfig\<close> with capacity 1 and the non-positive interval 0
  reports no error and stores both values; after one call of \<^verbatim>\<open>RefillBucket\<close> a
  request through the middleware is admitted.
\<close>

theorem config_validation_counterexample:
  "sint (cfg_REFILL_INTERVAL \<lparr>cfg_RATE_LIMIT = 1, cfg_REFILL_INTERVAL = 0\<rparr>) \<le> 0 \<and>
   SetConfig_result \<lparr>cfg_RATE_LIMIT = 1, cfg_REFILL_INTERVAL = 0\<rparr> New \<noteq> Inl ConfigurationError \<and>
   SetConfig_result \<lparr>cfg_RATE_LIMIT = 1, cfg_REFILL_INTERVAL = 0\<rparr> New =
     Inr \<lparr>RATE_LIMIT = 1, REFILL_INTERVAL = 0, tokenBucket = []\<rparr> \<and>
   RateLimitHTTPMiddleware
     (RefillBucket 7 (SetConfig \<lparr>cfg_RATE_LIMIT = 1, cfg_REFILL_INTERVAL = 0\<rparr> New)) =
     ([SetHeader ''X-RateLimit-Remaining'' (Text ''0''), ServeHTTP_next],
      \<lparr>RATE_LIMIT = 1, REFILL_INTERVAL = 0, tokenBucket = []\<rparr>) \<and>
   outcome_of (fst (RateLimitHTTPMiddleware
     (RefillBucket 7 (SetConfig \<lparr>cfg_RATE_LIMIT = 1, cfg_REFILL_INTERVAL = 0\<rparr> New)))) = Admitted"
  by (simp add: SetConfig_result_def SetConfig_def New_def RefillBucket_def int64_of_len_def
        RateLimitHTTPMiddleware_def Let_def outcome_of_def fmt_d.simps digit_char_def)

text \<open>
  C6, amended. \<^verbatim>\<open>SetConfig\<close> validates nothing: for every capacity and interval, the
  non-positive ones included, it returns normally, stores both values and leaves the token
  collection untouched. A fresh limiter configured with a non-positive capacity never
  admits: after any run of ticks, gate calls and status calls the bucket is empty, and a
  request through either middleware is rejected.
\<close>

theorem config_unvalidated:
  "SetConfig_result c r =
     Inr (r\<lparr>RATE_LIMIT := cfg_RATE_LIMIT c, REFILL_INTERVAL := cfg_REFILL_INTERVAL c\<rparr>) \<and>
   tokenBucket (SetConfig c r) = tokenBucket r \<and>
   (sint (cfg_RATE_LIMIT c) \<le> 0 \<longrightarrow>
      tokenBucket (run (SetConfig c New) ops) = [] \<and>
      outcome_of (fst (step (Gate b) (run (SetConfig c New) ops))) = Rejected)"
proof (intro conjI impI)
  show "SetConfig_result c r =
     Inr (r\<lparr>RATE_LIMIT := cfg_RATE_LIMIT c, REFILL_INTERVAL := cfg_REFILL_INTERVAL c\<rparr>)"
    by (simp add: SetConfig_result_def SetConfig_def)
  show "tokenBucket (SetConfig c r) = tokenBucket r"
    by (simp add: SetConfig_def)
next
  assume "sint (cfg_RATE_LIMIT c) \<le> 0"
  then have e: "run (SetConfig c New) ops = SetConfig c New"
    by (intro run_empty) (simp_all add: SetConfig_def New_def)
  show "tokenBucket (run (SetConfig c New) ops) = []"
    by (simp add: e) (simp add: SetConfig_def New_def)
  then show "outcome_of (fst (step (Gate b) (run (SetConfig c New) ops))) = Rejected"
    by (simp add: gate_outcome)
qed

theorem config_unvalidated_witness:
  "sint (cfg_RATE_LIMIT \<lparr>cfg_RATE_LIMIT = 0, cfg_REFILL_INTERVAL = 1000\<rparr>) \<le> 0 \<and>
   SetConfig_result \<lparr>cfg_RATE_LIMIT = 0, cfg_REFILL_INTERVAL = 1000\<rparr> New =
     Inr \<lparr>RATE_LIMIT = 0, REFILL_INTERVAL = 1000, tokenBucket = []\<rparr> \<and>
   tokenBucket (run (SetConfig \<lparr>cfg_RATE_LIMIT = 0, cfg_REFILL_INTERVAL = 1000\<rparr> New)
     [Tick 5, Gate HTTP, Tick 6]) = [] \<and>
   outcome_of (fst (step (Gate Gin)
     (run (SetConfig \<lparr>cfg_RATE_LIMIT = 0, cfg_REFILL_INTERVAL = 1000\<rparr> New)
        [Tick 5, Gate HTTP, Tick 6]))) = Rejected"
  using config_unvalidated [of "\<lparr>cfg_RATE_LIMIT = 0, cfg_REFILL_INTERVAL = 1000\<rparr>" New
          "[Tick 5, Gate HTTP, Tick 6]" Gin]
  by (simp add: New_def)

end
